theory Spec2Isabelle
  imports Main "HOL-Library.Sublist"
begin

text \<open>
  A shallow embedding of the query safety pipeline of the SQL agent: the clean-up that
  \<open>NLToSQLConverter.translate\<close> (\<open>nl_to_sql.py\<close>) applies to the text of a model
  completion, and \<open>SQLValidator\<close> (\<open>sql_validator.py\<close>). Exceptions are values of a sum
  type, the SQL tokenizer and the order in which Python iterates over a set are
  parameters.
\<close>

section \<open>Text primitives of the source language\<close>

text \<open>
  A Python \<open>str\<close> is modelled as a \<open>string\<close>, one \<open>char\<close> per code point. On code points
  below 128 the whitespace class and the case mappings below are exactly those of
  \<open>str.strip\<close>, \<open>str.upper\<close> and \<open>str.lower\<close>; this is the range in which the SQL
  keywords, the markdown fence, the quotes and the chatter markers of the program live.
  Code points from 128 on are carried through as they are, without case and not as
  whitespace, which is not what Python does with all of them: the model describes the
  program on ASCII text.
\<close>

definition is_space :: "char \<Rightarrow> bool" where
  "is_space c \<longleftrightarrow>
     c \<in> set [CHR 0x09, CHR 0x0A, CHR 0x0B, CHR 0x0C, CHR 0x0D,
              CHR 0x1C, CHR 0x1D, CHR 0x1E, CHR 0x1F, CHR 0x20]"

definition lstrip :: "string \<Rightarrow> string" where
  "lstrip s = dropWhile is_space s"

definition rstrip :: "string \<Rightarrow> string" where
  "rstrip s = rev (dropWhile is_space (rev s))"

definition strip :: "string \<Rightarrow> string" where
  "strip s = rstrip (lstrip s)"

definition upper_char :: "char \<Rightarrow> char" where
  "upper_char c =
     (let n = (of_char c :: nat) in if 97 \<le> n \<and> n \<le> 122 then char_of (n - 32) else c)"

definition lower_char :: "char \<Rightarrow> char" where
  "lower_char c =
     (let n = (of_char c :: nat) in if 65 \<le> n \<and> n \<le> 90 then char_of (n + 32) else c)"

definition upper :: "string \<Rightarrow> string" where
  "upper s = map upper_char s"

definition lower :: "string \<Rightarrow> string" where
  "lower s = map lower_char s"

text \<open>\<open>s.find(sub)\<close>: the lowest index at which \<open>sub\<close> occurs in \<open>s\<close>; Python's \<open>-1\<close> is
  \<open>None\<close>.\<close>

fun find_str :: "string \<Rightarrow> string \<Rightarrow> nat option" where
  "find_str sub [] = (if sub = [] then Some 0 else None)"
| "find_str sub (c # cs) =
     (if prefix sub (c # cs) then Some 0 else map_option Suc (find_str sub cs))"

section \<open>Completion clean-up of \<open>NLToSQLConverter.translate\<close>\<close>

text \<open>
  \<open>translate\<close> obtains the completion from the model service, refuses an absent or empty
  one (line 98), and then runs the block of lines 103--155 on its text. That block is
  \<open>normalize\<close> below; it has no side effect apart from logging, and its one way to fail is
  the \<open>ValueError\<close> of line 154.
\<close>

datatype error = ValueError string | TypeError | AttributeError

definition fence_sql :: string where
  "fence_sql = [CHR 0x60, CHR 0x60, CHR 0x60, CHR ''s'', CHR ''q'', CHR ''l'']"

definition fence :: string where
  "fence = [CHR 0x60, CHR 0x60, CHR 0x60]"

text \<open>Step 1 of the clean-up (lines 108--111): the SQL-tagged fence opener and the fence
  closer are removed, each followed by a trim.\<close>

definition remove_markdown :: "string \<Rightarrow> string" where
  "remove_markdown sql_query =
     (let q1 = (if prefix fence_sql sql_query
                then strip (drop (length fence_sql) sql_query) else sql_query)
      in if suffix fence q1 then strip (take (length q1 - length fence) q1) else q1)"

text \<open>Step 2 (lines 114--117): two tests in sequence, first for single quotes, then for
  double quotes; \<open>s[1:-1]\<close> drops the first and the last character.\<close>

definition slice_1_m1 :: "string \<Rightarrow> string" where
  "slice_1_m1 s = drop 1 (take (length s - 1) s)"

definition remove_quotes :: "string \<Rightarrow> string" where
  "remove_quotes sql_query =
     (let q1 = (if prefix [CHR 0x27] sql_query \<and> suffix [CHR 0x27] sql_query
                then slice_1_m1 sql_query else sql_query)
      in if prefix [CHR 0x22] q1 \<and> suffix [CHR 0x22] q1 then slice_1_m1 q1 else q1)"

definition explanation_markers :: "string list" where
  "explanation_markers =
     [''this query will'', ''the query above'', ''explanation:'',
      ''here is the sql'', ''note:'', fence]"

text \<open>One round of the marker loop (lines 142--144).\<close>

definition cut_marker :: "string \<Rightarrow> string \<Rightarrow> string" where
  "cut_marker sql_query marker =
     (case find_str marker (lower sql_query) of
        None \<Rightarrow> sql_query
      | Some marker_idx \<Rightarrow> strip (take marker_idx sql_query))"

text \<open>Step 3 (lines 122--144).\<close>

definition extract_select :: "string \<Rightarrow> string" where
  "extract_select sql_query =
     (case find_str ''SELECT '' (upper sql_query) of
        None \<Rightarrow> sql_query
      | Some select_idx \<Rightarrow>
          (let q1 = (case find_str ''select '' (lower sql_query) of
                       Some actual_select_idx \<Rightarrow> drop actual_select_idx sql_query
                     | None \<Rightarrow> drop select_idx sql_query)
           in foldl cut_marker q1 explanation_markers))"

text \<open>Step 4 (lines 147--148).\<close>

definition ensure_semicolon :: "string \<Rightarrow> string" where
  "ensure_semicolon sql_query =
     (if prefix ''SELECT'' (strip (upper sql_query)) \<and> \<not> suffix '';'' (strip sql_query)
      then strip sql_query @ '';'' else sql_query)"

definition non_select_error :: error where
  "non_select_error =
     ValueError ''LLM (Ollama) returned an empty or non-SELECT query after processing.''"

text \<open>The text before the acceptance test: lines 103--148.\<close>

definition cleanup :: "string \<Rightarrow> string" where
  "cleanup response =
     ensure_semicolon (extract_select (remove_quotes (remove_markdown (strip response))))"

text \<open>The acceptance test of lines 152--155, and the whole normalisation.\<close>

definition accept :: "string \<Rightarrow> error + string" where
  "accept sql_query =
     (if sql_query = [] \<or> \<not> prefix ''SELECT'' (strip (upper sql_query))
      then Inl non_select_error else Inr sql_query)"

definition normalize :: "string \<Rightarrow> error + string" where
  "normalize response = accept (cleanup response)"

section \<open>The statement structure handed over by the SQL tokenizer\<close>

text \<open>
  \<open>sqlparse\<close> is a library outside the repository, so the parser is a parameter
  \<open>parse\<close> of every function that calls \<open>sqlparse.parse\<close>. Of a token the validator
  reads \<open>is_keyword\<close>, \<open>normalized\<close> and its class; of an \<open>Identifier\<close> the result of
  \<open>get_real_name()\<close>, which may be \<open>None\<close>; of an \<open>IdentifierList\<close> the members that
  \<open>get_identifiers()\<close> yields, each of which is a group with a \<open>get_real_name\<close> method
  or a plain token without one.
\<close>

datatype member = Group "string option" | Leaf

datatype node = Identifier "string option" | IdentifierList "member list" | OtherNode

record token =
  is_keyword :: bool
  normalized :: string
  node :: node

record statement =
  get_type :: string
  tokens :: "token list"

type_synonym parser = "string \<Rightarrow> statement list"

type_synonym schema = "string \<rightharpoonup> string list"

section \<open>\<open>SQLValidator\<close>\<close>

text \<open>\<open>is_readonly_query\<close> (lines 18--37).\<close>

definition is_readonly_query :: "parser \<Rightarrow> string \<Rightarrow> bool" where
  "is_readonly_query parse sql_query =
     (let parsed = parse sql_query
      in case parsed of
           [] \<Rightarrow> False
         | first # _ \<Rightarrow>
             if get_type first \<noteq> ''SELECT'' then False
             else if length parsed > 1 then False
             else True)"

text \<open>\<open>s.split(sep)\<close> for a one-character separator; the result is never empty.\<close>

fun split_str :: "char \<Rightarrow> string \<Rightarrow> string list" where
  "split_str sep [] = [[]]"
| "split_str sep (c # cs) =
     (if c = sep then [] # split_str sep cs
      else (case split_str sep cs of
              [] \<Rightarrow> [[c]]
            | w # ws \<Rightarrow> (c # w) # ws))"

text \<open>Lines 110--112 and 118--120: the last dot-separated segment, lower-cased.\<close>

definition table_name :: "string \<Rightarrow> string" where
  "table_name real_name =
     lower (if CHR ''.'' \<in> set real_name then last (split_str CHR ''.'' real_name)
            else real_name)"

text \<open>\<open>extracted_tables.add\<close>: the set is kept as the list of its elements in the order
  of their first insertion.\<close>

definition set_add :: "string \<Rightarrow> string list \<Rightarrow> string list" where
  "set_add x xs = (if x \<in> set xs then xs else xs @ [x])"

text \<open>The inner loop over \<open>get_identifiers()\<close> (lines 116--120).\<close>

fun add_identifiers :: "member list \<Rightarrow> string list \<Rightarrow> error + string list" where
  "add_identifiers [] extracted_tables = Inr extracted_tables"
| "add_identifiers (Leaf # ms) extracted_tables = Inl AttributeError"
| "add_identifiers (Group None # ms) extracted_tables = Inl TypeError"
| "add_identifiers (Group (Some real_name) # ms) extracted_tables =
     add_identifiers ms (set_add (table_name real_name) extracted_tables)"

definition table_keywords :: "string list" where
  "table_keywords = [''JOIN'', ''INNER JOIN'', ''LEFT JOIN'', ''RIGHT JOIN'', ''FULL OUTER JOIN'']"

text \<open>The scan of lines 93--121, with \<open>from_seen\<close> and \<open>extracted_tables\<close> as arguments.\<close>

fun scan_tokens :: "bool \<Rightarrow> string list \<Rightarrow> token list \<Rightarrow> error + string list" where
  "scan_tokens from_seen extracted_tables [] = Inr extracted_tables"
| "scan_tokens from_seen extracted_tables (t # ts) =
     (if is_keyword t \<and> normalized t = ''FROM'' then scan_tokens True extracted_tables ts
      else if is_keyword t \<and> normalized t \<in> set table_keywords
        then scan_tokens True extracted_tables ts
      else if from_seen then
        (case node t of
           Identifier None \<Rightarrow> Inl TypeError
         | Identifier (Some real_name) \<Rightarrow>
             scan_tokens False (set_add (table_name real_name) extracted_tables) ts
         | IdentifierList identifiers \<Rightarrow>
             (case add_identifiers identifiers extracted_tables of
                Inl e \<Rightarrow> Inl e
              | Inr extracted \<Rightarrow> scan_tokens False extracted ts)
         | OtherNode \<Rightarrow> scan_tokens from_seen extracted_tables ts)
      else scan_tokens from_seen extracted_tables ts)"

definition unknown_table_msg :: "string \<Rightarrow> string" where
  "unknown_table_msg table_name_from_query =
     ''Invalid SQL: Table '' @ [CHR 0x27] @ table_name_from_query @ [CHR 0x27]
       @ '' does not exist in the database schema.''"

text \<open>
  \<open>validate_schema_references\<close> (lines 73--144). The loop of line 130 runs over a Python
  set, whose order of iteration the language leaves open: \<open>order\<close> is that order, a
  parameter that turns the elements into the sequence in which the loop meets them.
\<close>

definition validate_schema_references ::
  "(string list \<Rightarrow> string list) \<Rightarrow> parser \<Rightarrow> schema \<Rightarrow> string \<Rightarrow> error + bool \<times> string" where
  "validate_schema_references order parse schema sql_query =
     (if schema = Map.empty then Inr (True, ''Schema not available for validation.'')
      else case parse sql_query of
             [] \<Rightarrow> Inr (False, ''Invalid SQL syntax (parsing failed).'')
           | statement # _ \<Rightarrow>
               (case scan_tokens False [] (tokens statement) of
                  Inl e \<Rightarrow> Inl e
                | Inr extracted_tables \<Rightarrow>
                    (let schema_table_names = lower ` dom schema
                     in case find (\<lambda>t. t \<notin> schema_table_names) (order extracted_tables) of
                          Some t \<Rightarrow> Inr (False, unknown_table_msg t)
                        | None \<Rightarrow> Inr (True, ''SQL schema references seem valid.''))))"

text \<open>\<open>validate\<close> (lines 147--171).\<close>

definition validate ::
  "(string list \<Rightarrow> string list) \<Rightarrow> parser \<Rightarrow> schema \<Rightarrow> string \<Rightarrow> error + bool \<times> string" where
  "validate order parse schema sql_query =
     (if strip sql_query = [] then Inr (False, ''SQL query is empty.'')
      else if \<not> is_readonly_query parse sql_query
        then Inr (False, ''Invalid SQL: Only SELECT queries are permitted.'')
      else case validate_schema_references order parse schema sql_query of
             Inl e \<Rightarrow> Inl e
           | Inr (valid_schema, schema_msg) \<Rightarrow>
               if \<not> valid_schema then Inr (False, schema_msg)
               else Inr (True, ''SQL Validated''))"

text \<open>The order of iteration is some enumeration of the set.\<close>

definition enumerates :: "(string list \<Rightarrow> string list) \<Rightarrow> bool" where
  "enumerates order \<longleftrightarrow> (\<forall>xs. set (order xs) = set xs)"

text \<open>The two keyword tests of lines 98 and 101 taken together.\<close>

definition table_keyword :: "token \<Rightarrow> bool" where
  "table_keyword t \<longleftrightarrow>
     is_keyword t \<and> (normalized t = ''FROM'' \<or> normalized t \<in> set table_keywords)"

section \<open>Token streams of the example statements\<close>

text \<open>The statements that the tokenizer returns for the example queries, reduced to what
  the validator reads of them.\<close>

definition keyword_token :: "string \<Rightarrow> token" where
  "keyword_token s = \<lparr>is_keyword = True, normalized = s, node = OtherNode\<rparr>"

definition plain_token :: "string \<Rightarrow> token" where
  "plain_token s = \<lparr>is_keyword = False, normalized = s, node = OtherNode\<rparr>"

definition identifier_token :: "string \<Rightarrow> token" where
  "identifier_token real_name =
     \<lparr>is_keyword = False, normalized = real_name, node = Identifier (Some real_name)\<rparr>"

definition select_from :: "string \<Rightarrow> statement" where
  "select_from real_name =
     \<lparr>get_type = ''SELECT'',
      tokens = [keyword_token ''SELECT'', plain_token '' '', plain_token ''*'', plain_token '' '',
                keyword_token ''FROM'', plain_token '' '', identifier_token real_name,
                plain_token '';'']\<rparr>"

definition select_one :: statement where
  "select_one =
     \<lparr>get_type = ''SELECT'',
      tokens = [keyword_token ''SELECT'', plain_token '' '', plain_token ''1'',
                plain_token '';'']\<rparr>"

definition drop_table_users :: statement where
  "drop_table_users =
     \<lparr>get_type = ''DROP'',
      tokens = [keyword_token ''DROP'', plain_token '' '', keyword_token ''TABLE'',
                plain_token '' '', identifier_token ''users'', plain_token '';'']\<rparr>"

definition users_schema :: schema where
  "users_schema = [''users'' \<mapsto> [''user_id'', ''username'', ''email'', ''age'']]"

section \<open>Notions used in the statements about the normalizer\<close>

text \<open>The retained text: after the cut at the first \<open>select\<close> token the text starts,
  in whatever case, with \<open>SELECT\<close> and a space; trimming can leave the bare keyword.\<close>

definition retained :: "string \<Rightarrow> bool" where
  "retained q \<longleftrightarrow> prefix ''SELECT '' (upper q) \<or> upper q = ''SELECT''"

text \<open>A completion that is already in final form: trimmed, ending in a semicolon,
  starting with \<open>SELECT\<close>, and, if the token \<open>SELECT\<close> with its space occurs at all, starting
  with that token and free of chatter markers.\<close>

definition well_formed :: "string \<Rightarrow> bool" where
  "well_formed y \<longleftrightarrow>
     strip y = y \<and> suffix '';'' y \<and> prefix ''SELECT'' (upper y)
     \<and> (sublist ''SELECT '' (upper y) \<longrightarrow>
          prefix ''SELECT '' (upper y)
          \<and> (\<forall>m\<in>set explanation_markers. \<not> sublist m (lower y)))"

text \<open>The result of step 4 on a trimmed text that starts with \<open>SELECT\<close>.\<close>

definition with_semicolon :: "string \<Rightarrow> string" where
  "with_semicolon s = (if suffix '';'' s then s else s @ '';'')"

text \<open>Marker \<open>m'\<close> can start at a position inside an occurrence of marker \<open>m\<close>: from
  some offset on, the rest of \<open>m\<close> and the beginning of \<open>m'\<close> agree.\<close>

definition overlaps :: "string \<Rightarrow> string \<Rightarrow> bool" where
  "overlaps m' m \<longleftrightarrow>
     (\<exists>d\<in>set [1..<length m]. prefix (drop d m) m' \<or> prefix m' (drop d m))"

section \<open>Auxiliary facts\<close>

lemmas strip_defs = strip_def lstrip_def rstrip_def is_space_def

lemmas token_defs = keyword_token_def plain_token_def identifier_token_def

lemma scan_skip:
  "\<forall>t\<in>set ts. \<not> table_keyword t \<Longrightarrow> scan_tokens False ex (ts @ us) = scan_tokens False ex us"
  by (induction ts) (auto simp: table_keyword_def)

lemma scan_gap:
  "\<forall>t\<in>set ts. \<not> table_keyword t \<and> node t = OtherNode \<Longrightarrow>
   scan_tokens True ex (ts @ us) = scan_tokens True ex us"
  by (induction ts) (auto simp: table_keyword_def)

lemma scan_keyword: "table_keyword t \<Longrightarrow> scan_tokens f ex (t # us) = scan_tokens True ex us"
  by (auto simp: table_keyword_def)

lemma scan_identifier:
  "\<not> table_keyword t \<Longrightarrow> node t = Identifier (Some rn) \<Longrightarrow>
   scan_tokens True ex (t # us) = scan_tokens False (set_add (table_name rn) ex) us"
  by (auto simp: table_keyword_def)

lemma split_str_nonempty: "split_str sep s \<noteq> []"
  by (induction s) (auto split: list.splits)

lemma split_str_none: "sep \<notin> set s \<Longrightarrow> split_str sep s = [s]"
  by (induction s) auto

lemma split_str_tail: "sep \<in> set s \<Longrightarrow> \<exists>w v ws. split_str sep s = w # v # ws"
  by (induction s) (auto split: list.splits simp: split_str_nonempty neq_Nil_conv)

lemma last_split_str: "sep \<notin> set n \<Longrightarrow> last (split_str sep (p @ sep # n)) = n"
proof (induction p)
  case Nil
  then show ?case by (simp add: split_str_none)
next
  case (Cons a p)
  obtain w v ws where "split_str sep (p @ sep # n) = w # v # ws"
    using split_str_tail [of sep "p @ sep # n"] by auto
  with Cons show ?case by auto
qed

lemma table_name_qualified: "CHR ''.'' \<notin> set n \<Longrightarrow> table_name (p @ ''.'' @ n) = lower n"
  by (simp add: table_name_def last_split_str)

lemma find_enumerated:
  "enumerates order \<Longrightarrow> (find P (order xs) = None) = (\<forall>x\<in>set xs. \<not> P x)"
  by (auto simp add: find_None_iff enumerates_def)

lemma find_enumerated_Some:
  "enumerates order \<Longrightarrow> find P (order xs) = Some t \<Longrightarrow> t \<in> set xs \<and> P t"
  by (auto simp add: find_Some_iff enumerates_def) (metis nth_mem)

lemma validate_single_select:
  assumes "strip sql \<noteq> []" "parse sql = [stmt]" "get_type stmt = ''SELECT''"
  shows "validate order parse schema sql =
           (case validate_schema_references order parse schema sql of
              Inl e \<Rightarrow> Inl e
            | Inr (ok, m) \<Rightarrow> if ok then Inr (True, ''SQL Validated'') else Inr (False, m))"
  using assms by (auto simp: validate_def is_readonly_query_def split: sum.splits)

lemma references_scanned:
  assumes "schema \<noteq> Map.empty" "parse sql = [stmt]"
    "scan_tokens False [] (tokens stmt) = Inr refs"
  shows "validate_schema_references order parse schema sql =
           (case find (\<lambda>t. t \<notin> lower ` dom schema) (order refs) of
              Some t \<Rightarrow> Inr (False, unknown_table_msg t)
            | None \<Rightarrow> Inr (True, ''SQL schema references seem valid.''))"
  using assms by (simp add: validate_schema_references_def)

lemma char_cases: obtains n :: nat where "c = char_of n" "n < 256"
proof -
  have "c = char_of (of_char c :: nat)" by simp
  moreover have "(of_char c :: nat) < 256" by simp
  ultimately show ?thesis using that by blast
qed

lemma is_space_code: "is_space c \<longleftrightarrow> (of_char c :: nat) \<in> {9, 10, 11, 12, 13, 28, 29, 30, 31, 32}"
proof -
  have "(c = d) = ((of_char c :: nat) = of_char d)" for d by simp
  then have "is_space c \<longleftrightarrow> (of_char c :: nat) \<in> of_char ` set [CHR 0x09, CHR 0x0A, CHR 0x0B, CHR 0x0C, CHR 0x0D,
              CHR 0x1C, CHR 0x1D, CHR 0x1E, CHR 0x1F, CHR 0x20]"
    unfolding is_space_def by (simp only: set_simps image_insert image_empty insert_iff empty_iff)
  then show ?thesis by simp
qed

lemma is_space_upper_char [simp]: "is_space (upper_char c) = is_space c"
  by (cases c rule: char_cases) (auto simp add: is_space_code upper_char_def Let_def)

lemma is_space_lower_char [simp]: "is_space (lower_char c) = is_space c"
  by (cases c rule: char_cases) (auto simp add: is_space_code lower_char_def Let_def)

lemma lower_upper_char [simp]: "lower_char (upper_char c) = lower_char c"
  by (cases c rule: char_cases) (auto simp add: lower_char_def upper_char_def Let_def)

lemma upper_lower_char [simp]: "upper_char (lower_char c) = upper_char c"
  by (cases c rule: char_cases) (auto simp add: lower_char_def upper_char_def Let_def)

lemma upper_upper_char [simp]: "upper_char (upper_char c) = upper_char c"
  by (cases c rule: char_cases) (auto simp add: upper_char_def Let_def)

lemma lower_lower_char [simp]: "lower_char (lower_char c) = lower_char c"
  by (cases c rule: char_cases) (auto simp add: lower_char_def Let_def)

lemma upper_append [simp]: "upper (a @ b) = upper a @ upper b"
  by (simp add: upper_def)

lemma lower_append [simp]: "lower (a @ b) = lower a @ lower b"
  by (simp add: lower_def)

lemma length_upper [simp]: "length (upper s) = length s"
  by (simp add: upper_def)

lemma length_lower [simp]: "length (lower s) = length s"
  by (simp add: lower_def)

lemma upper_lower [simp]: "upper (lower s) = upper s"
  by (simp add: upper_def lower_def)

lemma lower_upper [simp]: "lower (upper s) = lower s"
  by (simp add: upper_def lower_def)

lemma upper_take: "upper (take n s) = take n (upper s)"
  by (simp add: upper_def take_map)

lemma upper_drop: "upper (drop n s) = drop n (upper s)"
  by (simp add: upper_def drop_map)

lemma lower_take: "lower (take n s) = take n (lower s)"
  by (simp add: lower_def take_map)

lemma lower_drop: "lower (drop n s) = drop n (lower s)"
  by (simp add: lower_def drop_map)

lemma lstrip_upper: "lstrip (upper s) = upper (lstrip s)"
  by (simp add: lstrip_def upper_def dropWhile_map comp_def)

lemma rstrip_upper: "rstrip (upper s) = upper (rstrip s)"
  by (simp add: rstrip_def upper_def dropWhile_map comp_def rev_map)

lemma strip_upper: "strip (upper s) = upper (strip s)"
  by (simp add: strip_def lstrip_upper rstrip_upper)

lemma lstrip_lower: "lstrip (lower s) = lower (lstrip s)"
  by (simp add: lstrip_def lower_def dropWhile_map comp_def)

lemma rstrip_lower: "rstrip (lower s) = lower (rstrip s)"
  by (simp add: rstrip_def lower_def dropWhile_map comp_def rev_map)

lemma strip_lower: "strip (lower s) = lower (strip s)"
  by (simp add: strip_def lstrip_lower rstrip_lower)

lemma lstrip_eq: "lstrip s = s \<longleftrightarrow> s = [] \<or> \<not> is_space (hd s)"
  by (simp add: lstrip_def dropWhile_eq_self_iff)

lemma rstrip_eq: "rstrip s = s \<longleftrightarrow> s = [] \<or> \<not> is_space (last s)"
proof -
  have "rstrip s = s \<longleftrightarrow> dropWhile is_space (rev s) = rev s"
    unfolding rstrip_def by (metis rev_rev_ident)
  then show ?thesis by (simp add: dropWhile_eq_self_iff hd_rev)
qed

lemma suffix_lstrip: "suffix (lstrip s) s"
  by (simp add: lstrip_def suffix_dropWhile)

lemma prefix_rstrip: "prefix (rstrip s) s"
proof -
  have "suffix (dropWhile is_space (rev s)) (rev s)" by (rule suffix_dropWhile)
  then show ?thesis unfolding rstrip_def by (metis suffix_to_prefix rev_rev_ident)
qed

lemma sublist_strip: "sublist (strip s) s"
proof -
  have "sublist (rstrip (lstrip s)) (lstrip s)" using prefix_rstrip by blast
  moreover have "sublist (lstrip s) s" using suffix_lstrip by blast
  ultimately show ?thesis unfolding strip_def by (rule sublist_order.order_trans)
qed

lemma lstrip_hd: "lstrip s \<noteq> [] \<Longrightarrow> \<not> is_space (hd (lstrip s))"
  unfolding lstrip_def by (rule hd_dropWhile)

lemma rstrip_last: "rstrip s \<noteq> [] \<Longrightarrow> \<not> is_space (last (rstrip s))"
  unfolding rstrip_def using hd_dropWhile [of is_space "rev s"] by (simp add: last_rev)

lemma rstrip_hd: "rstrip s \<noteq> [] \<Longrightarrow> hd (rstrip s) = hd s"
proof -
  assume ne: "rstrip s \<noteq> []"
  obtain zs where "s = rstrip s @ zs" using prefix_rstrip [of s] by (auto simp: prefix_def)
  then have "hd s = hd (rstrip s @ zs)" by simp
  also have "\<dots> = hd (rstrip s)" using ne by simp
  finally show ?thesis by simp
qed

lemma strip_hd: "strip s \<noteq> [] \<Longrightarrow> \<not> is_space (hd (strip s))"
  unfolding strip_def using rstrip_hd [of "lstrip s"] lstrip_hd [of s]
  by (metis prefix_rstrip prefix_Nil)

lemma strip_last: "strip s \<noteq> [] \<Longrightarrow> \<not> is_space (last (strip s))"
  unfolding strip_def by (rule rstrip_last)

lemma strip_eq: "strip s = s \<longleftrightarrow> s = [] \<or> (\<not> is_space (hd s) \<and> \<not> is_space (last s))"
proof
  assume "strip s = s"
  then show "s = [] \<or> (\<not> is_space (hd s) \<and> \<not> is_space (last s))"
    using strip_hd [of s] strip_last [of s] by auto
next
  assume "s = [] \<or> (\<not> is_space (hd s) \<and> \<not> is_space (last s))"
  then have "lstrip s = s" "rstrip s = s" by (auto simp: lstrip_eq rstrip_eq)
  then show "strip s = s" by (simp add: strip_def)
qed

lemma strip_strip [simp]: "strip (strip s) = strip s"
  using strip_hd [of s] strip_last [of s] by (auto simp: strip_eq)

lemma strip_Nil [simp]: "strip [] = []"
  by (simp add: strip_defs)

lemma strip_snoc: "a \<noteq> [] \<Longrightarrow> \<not> is_space (hd a) \<Longrightarrow> \<not> is_space c \<Longrightarrow> strip (a @ [c]) = a @ [c]"
  by (simp add: strip_eq)

lemma upper_Nil [simp]: "upper [] = []"
  by (simp add: upper_def)

lemma lower_Nil [simp]: "lower [] = []"
  by (simp add: lower_def)

lemma suffix_last_char [simp]: "suffix [c] (x # m @ [c])"
  by (simp add: suffix_def)

lemma slice_wrapped [simp]: "slice_1_m1 (x # m @ [c]) = m"
  by (simp add: slice_1_m1_def)

lemma remove_quotes_double: "remove_quotes ([CHR 0x22] @ m @ [CHR 0x22]) = m"
  by (simp add: remove_quotes_def)

lemma remove_quotes_single:
  "remove_quotes ([CHR 0x27] @ m @ [CHR 0x27])
     = (if prefix [CHR 0x22] m \<and> suffix [CHR 0x22] m then slice_1_m1 m else m)"
  by (simp add: remove_quotes_def)

lemma remove_quotes_unwrapped:
  "\<not> (prefix [CHR 0x27] s \<and> suffix [CHR 0x27] s) \<Longrightarrow>
   \<not> (prefix [CHR 0x22] s \<and> suffix [CHR 0x22] s) \<Longrightarrow> remove_quotes s = s"
  by (auto simp add: remove_quotes_def)

lemma not_space_semicolon [simp]: "\<not> is_space CHR '';''"
  by (simp add: is_space_def)

lemma strip_semicolon: "strip s \<noteq> [] \<Longrightarrow> strip (strip s @ '';'') = strip s @ '';''"
  by (rule strip_snoc) (simp_all add: strip_hd)

lemma ensure_semicolon_cases:
  "ensure_semicolon q =
     (if prefix ''SELECT'' (upper (strip q)) \<and> \<not> suffix '';'' (strip q) then strip q @ '';'' else q)"
  by (simp add: ensure_semicolon_def strip_upper)

lemma accept_cases:
  "accept q = (if prefix ''SELECT'' (upper (strip q)) then Inr q else Inl non_select_error)"
proof -
  have "prefix ''SELECT'' (upper (strip q)) \<Longrightarrow> q \<noteq> []" by auto
  then show ?thesis by (auto simp add: accept_def strip_upper)
qed

lemma accept_with_semicolon:
  assumes "prefix ''SELECT'' (upper (strip q))"
  shows "accept (strip q @ '';'') = Inr (strip q @ '';'')"
proof -
  have ne: "strip q \<noteq> []" using assms by auto
  have "prefix ''SELECT'' (upper (strip q) @ '';'')"
    using assms by (rule prefix_prefix)
  moreover have "upper '';'' = '';''" by (simp add: upper_def upper_char_def)
  ultimately show ?thesis
    by (simp add: accept_cases strip_semicolon [OF ne])
qed

lemma accept_ensure_semicolon:
  "accept (ensure_semicolon q) =
     (if prefix ''SELECT'' (upper (strip q))
      then Inr (if suffix '';'' (strip q) then q else strip q @ '';'')
      else Inl non_select_error)"
  by (simp add: ensure_semicolon_cases accept_with_semicolon) (simp add: accept_cases)

lemma extract_select_None:
  "find_str ''SELECT '' (upper q) = None \<Longrightarrow> extract_select q = q"
  by (simp add: extract_select_def)

lemma find_str_None_iff: "find_str sub s = None \<longleftrightarrow> \<not> sublist sub s"
  by (induction s) (auto simp: sublist_Cons_right)

lemma find_str_prefix: "prefix sub s \<Longrightarrow> find_str sub s = Some 0"
  by (cases s) auto

lemma find_str_Some_iff:
  "find_str sub s = Some i \<longleftrightarrow>
     i \<le> length s \<and> prefix sub (drop i s) \<and> (\<forall>j<i. \<not> prefix sub (drop j s))"
proof (induction s arbitrary: i)
  case Nil
  then show ?case by auto
next
  case (Cons c cs)
  show ?case
  proof (cases "prefix sub (c # cs)")
    case True
    then show ?thesis by (cases i) auto
  next
    case False
    show ?thesis
    proof (cases i)
      case 0
      with False show ?thesis by simp
    next
      case (Suc k)
      have "(\<forall>j<Suc k. \<not> prefix sub (drop j (c # cs))) \<longleftrightarrow> (\<forall>j<k. \<not> prefix sub (drop j cs))"
        using False by (auto simp: less_Suc_eq_0_disj)
      with False Suc Cons.IH [of k] show ?thesis by auto
    qed
  qed
qed

lemma find_str_SomeD:
  "find_str sub s = Some i \<Longrightarrow> prefix sub (drop i s)"
  by (simp add: find_str_Some_iff)

lemma find_str_first:
  "find_str sub s = Some i \<Longrightarrow> j < i \<Longrightarrow> \<not> prefix sub (drop j s)"
  by (simp add: find_str_Some_iff)

lemma sublist_take_occurrence:
  assumes "sublist sub (take i s)" "sub \<noteq> []"
  shows "\<exists>j<i. prefix sub (drop j s)"
proof -
  from assms(1) obtain ps ss where eq: "take i s = ps @ sub @ ss"
    by (auto simp: sublist_def)
  have len: "length ps + length sub \<le> i"
    using arg_cong [OF eq, of length] by simp
  have "s = take i s @ drop i s" by simp
  then have "s = ps @ sub @ (ss @ drop i s)" using eq by simp
  then have "drop (length ps) s = sub @ (ss @ drop i s)"
    by (metis append_eq_conv_conj)
  then have "prefix sub (drop (length ps) s)" by simp
  moreover have "length ps < i" using len assms(2) by (cases sub) auto
  ultimately show ?thesis by blast
qed

lemma sublist_lower: "sublist a b \<Longrightarrow> sublist (lower a) (lower b)"
  unfolding lower_def by (rule map_mono_sublist)

lemma sublist_upper: "sublist a b \<Longrightarrow> sublist (upper a) (upper b)"
  unfolding upper_def by (rule map_mono_sublist)

lemma sublist_snoc_other:
  assumes "sublist sub (a @ [c])" "c \<notin> set sub" "sub \<noteq> []"
  shows "sublist sub a"
proof -
  from assms(1) have "suffix sub (a @ [c]) \<or> sublist sub a" by (simp add: sublist_snoc)
  moreover have "\<not> suffix sub (a @ [c])"
  proof
    assume "suffix sub (a @ [c])"
    then obtain zs where "a @ [c] = zs @ sub" by (auto simp: suffix_def)
    then have "last sub = c" using assms(3) by (metis last_appendR last_snoc)
    then show False using assms(2,3) by (metis last_in_set)
  qed
  ultimately show ?thesis by blast
qed

text \<open>The marker loop only removes text, and removes each marker it has looked for.\<close>

lemma sublist_cut_marker: "sublist (cut_marker q m) q"
proof (cases "find_str m (lower q)")
  case None
  then show ?thesis by (simp add: cut_marker_def)
next
  case (Some i)
  have "sublist (strip (take i q)) (take i q)" by (rule sublist_strip)
  moreover have "sublist (take i q) q" by simp
  ultimately have "sublist (strip (take i q)) q" by (rule sublist_order.order_trans)
  with Some show ?thesis by (simp add: cut_marker_def)
qed

lemma cut_marker_removes:
  assumes "m \<noteq> []"
  shows "\<not> sublist m (lower (cut_marker q m))"
proof (cases "find_str m (lower q)")
  case None
  then have "cut_marker q m = q" by (simp add: cut_marker_def)
  moreover from None have "\<not> sublist m (lower q)" by (simp add: find_str_None_iff)
  ultimately show ?thesis by simp
next
  case (Some i)
  show ?thesis
  proof
    assume "sublist m (lower (cut_marker q m))"
    then have "sublist m (lower (strip (take i q)))" using Some by (simp add: cut_marker_def)
    moreover have "sublist (lower (strip (take i q))) (lower (take i q))"
      by (rule sublist_lower) (rule sublist_strip)
    ultimately have "sublist m (take i (lower q))"
      unfolding lower_take [symmetric] by (rule sublist_order.order_trans)
    from sublist_take_occurrence [OF this assms]
    obtain j where "j < i" "prefix m (drop j (lower q))" by blast
    with find_str_first [OF Some] show False by blast
  qed
qed

lemma cut_marker_keeps_absent:
  "\<not> sublist m (lower q) \<Longrightarrow> \<not> sublist m (lower (cut_marker q m'))"
  using sublist_lower [OF sublist_cut_marker [of q m']] sublist_order.order_trans by blast

lemma foldl_cut_marker_sublist: "sublist (foldl cut_marker q ms) q"
proof (induction ms arbitrary: q)
  case Nil
  then show ?case by simp
next
  case (Cons m ms)
  have "sublist (foldl cut_marker (cut_marker q m) ms) (cut_marker q m)" by (rule Cons.IH)
  then show ?case using sublist_cut_marker [of q m] sublist_order.order_trans by auto
qed

lemma foldl_cut_marker_removes:
  "[] \<notin> set ms \<Longrightarrow> m \<in> set ms \<Longrightarrow> \<not> sublist m (lower (foldl cut_marker q ms))"
proof (induction ms arbitrary: q)
  case Nil
  then show ?case by simp
next
  case (Cons a ms)
  show ?case
  proof (cases "m \<in> set ms")
    case True
    with Cons show ?thesis by simp
  next
    case False
    with Cons.prems have [simp]: "a = m" and "m \<noteq> []" by auto
    have "\<not> sublist m (lower (cut_marker q m))" using \<open>m \<noteq> []\<close> by (rule cut_marker_removes)
    moreover have "sublist (lower (foldl cut_marker (cut_marker q m) ms)) (lower (cut_marker q m))"
      by (rule sublist_lower) (rule foldl_cut_marker_sublist)
    ultimately show ?thesis using sublist_order.order_trans by auto
  qed
qed

lemma prefix_upper: "prefix a b \<Longrightarrow> prefix (upper a) (upper b)"
  unfolding upper_def by (rule map_mono_prefix)

lemma prefix_lower: "prefix a b \<Longrightarrow> prefix (lower a) (lower b)"
  unfolding lower_def by (rule map_mono_prefix)

lemma lower_SELECT: "lower ''SELECT '' = ''select ''" "lower ''SELECT'' = ''select''"
  by code_simp+

lemma select_prefix_lower: "prefix ''SELECT '' (upper q) \<Longrightarrow> prefix ''select '' (lower q)"
  using prefix_lower [of "''SELECT ''" "upper q"] by (simp add: lower_SELECT)

lemma upper_select: "upper ''select '' = ''SELECT ''"
  by code_simp

lemma select_prefix_upper: "prefix ''select '' (lower q) \<Longrightarrow> prefix ''SELECT '' (upper q)"
  using prefix_upper [of "''select ''" "lower q"] by (simp add: upper_select)

lemma upper_hd_not_space:
  assumes "prefix (c # p) (upper q)" "\<not> is_space c"
  shows "q \<noteq> []" "\<not> is_space (hd q)"
proof -
  from assms(1) show ne: "q \<noteq> []" by auto
  from assms(1) have "hd (upper q) = c" by (auto simp: prefix_def)
  then have "upper_char (hd q) = c" using ne by (simp add: upper_def hd_map)
  then have "is_space (hd q) = is_space c" by (metis is_space_upper_char)
  with assms(2) show "\<not> is_space (hd q)" by simp
qed

lemma rstrip_keeps: "\<not> is_space c \<Longrightarrow> prefix (a @ [c]) (rstrip (a @ c # b))"
proof -
  assume c: "\<not> is_space c"
  have "suffix (c # rev a) (dropWhile is_space (rev b @ c # rev a))"
    using c by (simp add: dropWhile_append suffix_def) 
  then have "prefix (rev (c # rev a)) (rev (dropWhile is_space (rev b @ c # rev a)))"
    by (simp only: suffix_to_prefix)
  then show ?thesis by (simp add: rstrip_def)
qed

lemma prefix_select_cases:
  assumes "prefix z (''SELECT '' @ r)" "6 \<le> length z"
  shows "z = ''SELECT'' \<or> prefix ''SELECT '' z"
proof -
  have "prefix ''SELECT '' (''SELECT '' @ r)" by simp
  with assms(1) have "prefix z ''SELECT '' \<or> prefix ''SELECT '' z"
    by (rule prefix_same_cases)
  moreover have "z = ''SELECT'' \<or> z = ''SELECT ''" if "prefix z ''SELECT ''"
  proof -
    from that obtain zs where eq: "''SELECT '' = z @ zs" by (auto simp: prefix_def)
    have "length (z @ zs) = 7" unfolding eq [symmetric] by simp
    with assms(2) have "length z = 6 \<or> length z = 7" by auto
    moreover have "z = take (length z) ''SELECT ''" unfolding eq by simp
    ultimately show ?thesis by auto
  qed
  ultimately show ?thesis by auto
qed

lemma retained_strip:
  assumes "retained q"
  shows "retained (strip q)"
proof (cases "upper q = ''SELECT''")
  case True
  then have ne: "q \<noteq> []" by auto
  have "hd (upper q) = CHR ''S''" "last (upper q) = CHR ''T''" unfolding True by simp_all
  then have "upper_char (hd q) = CHR ''S''" "upper_char (last q) = CHR ''T''"
    using ne by (simp_all add: upper_def hd_map last_map)
  then have "is_space (hd q) = is_space CHR ''S''" "is_space (last q) = is_space CHR ''T''"
    by (metis is_space_upper_char)+
  then have "strip q = q" by (simp add: strip_eq is_space_def)
  with assms show ?thesis by simp
next
  case False
  with assms have p: "prefix ''SELECT '' (upper q)" by (simp add: retained_def)
  then obtain r where r: "upper q = ''SELECT '' @ r" by (auto simp: prefix_def)
  have hd: "q \<noteq> []" "\<not> is_space (hd q)"
    using upper_hd_not_space [of "CHR ''S''" "''ELECT ''" q] p by (simp_all add: is_space_def)
  then have l: "lstrip q = q" by (simp add: lstrip_eq)
  have "length (upper q) = 7 + length r" unfolding r by simp
  then have len: "5 < length q" by simp
  define a c b where "a = take 5 q" and "c = q ! 5" and "b = drop (Suc 5) q"
  have q: "q = a @ c # b"
    unfolding a_def c_def b_def using len by (rule id_take_nth_drop)
  have "upper_char c = upper q ! 5" unfolding c_def upper_def using len by simp
  also have "\<dots> = CHR ''T''" unfolding r by simp
  finally have "is_space c = is_space CHR ''T''" by (metis is_space_upper_char)
  then have c: "\<not> is_space c" by (simp add: is_space_def)
  have "prefix (a @ [c]) (rstrip (a @ c # b))" using c by (rule rstrip_keeps)
  then have "length (a @ [c]) \<le> length (rstrip q)" unfolding q [symmetric] by (rule prefix_length_le)
  moreover have "length a = 5" unfolding a_def using len by simp
  ultimately have six: "6 \<le> length (strip q)" by (simp add: strip_def l)
  have "prefix (strip q) q" using prefix_rstrip [of q] by (simp add: strip_def l)
  then have "prefix (upper (strip q)) (upper q)" by (rule prefix_upper)
  then have "prefix (upper (strip q)) (''SELECT '' @ r)" unfolding r .
  from prefix_select_cases [OF this] six
  have "upper (strip q) = ''SELECT'' \<or> prefix ''SELECT '' (upper (strip q))" by simp
  then show ?thesis unfolding retained_def by blast
qed


lemma marker_not_in_select:
  assumes "m \<in> set explanation_markers" "i < 7"
  shows "\<not> prefix m (drop i (''select '' @ r))"
proof -
  from assms(2) have "i = 0 \<or> i = 1 \<or> i = 2 \<or> i = 3 \<or> i = 4 \<or> i = 5 \<or> i = 6" by arith
  then show ?thesis
    using assms(1) by (auto simp: explanation_markers_def fence_def eval_nat_numeral)
qed

lemma marker_not_in_bare_select:
  assumes "m \<in> set explanation_markers"
  shows "find_str m ''select'' = None"
  using assms by (auto simp: explanation_markers_def fence_def)

lemma retained_take_marker:
  assumes "retained q" "m \<in> set explanation_markers" "find_str m (lower q) = Some i"
  shows "retained (take i q)"
proof (cases "upper q = ''SELECT''")
  case True
  then have "lower (upper q) = ''select''" by (simp add: lower_SELECT)
  then have "lower q = ''select''" by simp
  with assms(3) marker_not_in_bare_select [OF assms(2)] show ?thesis by simp
next
  case False
  with assms have p: "prefix ''SELECT '' (upper q)" by (simp add: retained_def)
  then obtain r where r: "lower q = ''select '' @ r"
    using select_prefix_lower [of q] by (auto simp: prefix_def)
  have "prefix m (drop i (''select '' @ r))"
    using find_str_SomeD [OF assms(3)] unfolding r .
  with marker_not_in_select [OF assms(2), of i r] have "\<not> i < 7" by blast
  then have i: "7 \<le> i" by simp
  from p obtain r' where r': "upper q = ''SELECT '' @ r'" by (auto simp: prefix_def)
  have "upper (take i q) = take i (upper q)" by (rule upper_take)
  also have "\<dots> = take i ''SELECT '' @ take (i - length ''SELECT '') r'"
    unfolding r' by (simp only: take_append)
  also have "take i ''SELECT '' = ''SELECT ''" using i by (intro take_all) simp
  finally have "prefix ''SELECT '' (upper (take i q))" by (simp only: prefixI)
  then show ?thesis by (simp add: retained_def)
qed

lemma retained_cut_marker:
  assumes "retained q" "m \<in> set explanation_markers"
  shows "retained (cut_marker q m)"
proof (cases "find_str m (lower q)")
  case None
  with assms show ?thesis by (simp add: cut_marker_def)
next
  case (Some i)
  have "retained (take i q)" using assms Some by (rule retained_take_marker)
  then have "retained (strip (take i q))" by (rule retained_strip)
  with Some show ?thesis by (simp add: cut_marker_def)
qed

lemma retained_foldl_cut_marker:
  "retained q \<Longrightarrow> set ms \<subseteq> set explanation_markers \<Longrightarrow> retained (foldl cut_marker q ms)"
  by (induction ms arbitrary: q) (simp_all add: retained_cut_marker)

lemma foldl_cut_marker_absent:
  "\<forall>m\<in>set ms. \<not> sublist m (lower q) \<Longrightarrow> foldl cut_marker q ms = q"
  by (induction ms) (simp_all add: cut_marker_def find_str_None_iff [symmetric])

lemma markers_nonempty: "[] \<notin> set explanation_markers"
  by (simp add: explanation_markers_def fence_def)

lemma semicolon_not_in_marker: "m \<in> set explanation_markers \<Longrightarrow> CHR '';'' \<notin> set m"
  by (auto simp: explanation_markers_def fence_def)

lemma upper_semicolon: "upper '';'' = '';''" "lower '';'' = '';''"
  by code_simp+

lemma normalize_strip: "normalize (strip y) = normalize y"
  by (simp add: normalize_def cleanup_def)

lemma well_formed_normalize:
  assumes "well_formed y"
  shows "normalize y = Inr y"
proof -
  from assms have st: "strip y = y" and semi: "suffix '';'' y"
    and sel: "prefix ''SELECT'' (upper y)"
    by (simp_all add: well_formed_def)
  have no_prefix: "\<not> prefix p y" if "\<not> prefix (upper p) ''SELECT''" "\<not> prefix ''SELECT'' (upper p)" for p
    using prefix_same_cases [OF prefix_upper sel, of p] that by blast
  have no_suffix: "\<not> suffix p y" if "\<not> suffix p '';''" "\<not> suffix '';'' p" for p
    using suffix_same_cases [OF _ semi, of p] that by blast
  have "\<not> prefix fence_sql y" by (rule no_prefix) code_simp+
  moreover have "\<not> suffix fence y" by (rule no_suffix) code_simp+
  ultimately have md: "remove_markdown y = y" by (simp add: remove_markdown_def)
  have "\<not> prefix [CHR 0x27] y" by (rule no_prefix) code_simp+
  moreover have "\<not> prefix [CHR 0x22] y" by (rule no_prefix) code_simp+
  ultimately have rq: "remove_quotes y = y" by (simp add: remove_quotes_unwrapped)
  have ex: "extract_select y = y"
  proof (cases "sublist ''SELECT '' (upper y)")
    case False
    then show ?thesis by (simp add: extract_select_None find_str_None_iff)
  next
    case True
    with assms have p: "prefix ''SELECT '' (upper y)"
      and none: "\<forall>m\<in>set explanation_markers. \<not> sublist m (lower y)"
      by (simp_all add: well_formed_def)
    have "find_str ''SELECT '' (upper y) = Some 0" using p by (rule find_str_prefix)
    moreover have "find_str ''select '' (lower y) = Some 0"
      using select_prefix_lower [OF p] by (rule find_str_prefix)
    ultimately show ?thesis
      by (simp add: extract_select_def foldl_cut_marker_absent [OF none])
  qed
  have es: "ensure_semicolon y = y" using semi by (simp add: ensure_semicolon_cases st)
  have "accept y = Inr y" using sel by (simp add: accept_cases st)
  then show ?thesis by (simp add: normalize_def cleanup_def st md rq ex es)
qed

lemma extract_select_result:
  "\<not> sublist ''SELECT '' (upper (extract_select q))
   \<or> (retained (extract_select q)
      \<and> (\<forall>m\<in>set explanation_markers. \<not> sublist m (lower (extract_select q))))"
proof (cases "find_str ''SELECT '' (upper q)")
  case None
  then have "extract_select q = q" by (rule extract_select_None)
  moreover from None have "\<not> sublist ''SELECT '' (upper q)" by (simp add: find_str_None_iff)
  ultimately show ?thesis by simp
next
  case (Some i)
  define q1 where "q1 = (case find_str ''select '' (lower q) of
                       Some actual_select_idx \<Rightarrow> drop actual_select_idx q
                     | None \<Rightarrow> drop i q)"
  have ex: "extract_select q = foldl cut_marker q1 explanation_markers"
    using Some by (simp add: extract_select_def q1_def)
  have "prefix ''SELECT '' (upper q1)"
  proof (cases "find_str ''select '' (lower q)")
    case None
    then have "q1 = drop i q" by (simp add: q1_def)
    moreover have "prefix ''SELECT '' (drop i (upper q))" using Some by (rule find_str_SomeD)
    ultimately show ?thesis by (simp add: upper_drop)
  next
    case (Some j)
    then have "q1 = drop j q" by (simp add: q1_def)
    moreover have "prefix ''select '' (drop j (lower q))" using Some by (rule find_str_SomeD)
    ultimately have "prefix ''select '' (lower q1)" by (simp add: lower_drop)
    then show ?thesis by (rule select_prefix_upper)
  qed
  then have "retained q1" by (simp add: retained_def)
  then have "retained (extract_select q)"
    unfolding ex by (rule retained_foldl_cut_marker) simp
  moreover have "\<forall>m\<in>set explanation_markers. \<not> sublist m (lower (extract_select q))"
    unfolding ex using foldl_cut_marker_removes [OF markers_nonempty] by blast
  ultimately show ?thesis by blast
qed

lemma finish_well_formed:
  assumes sel: "prefix ''SELECT'' (upper (strip q))"
    and res: "\<not> sublist ''SELECT '' (upper q)
              \<or> (retained q \<and> (\<forall>m\<in>set explanation_markers. \<not> sublist m (lower q)))"
  shows "well_formed (if suffix '';'' (strip q) then strip q else strip q @ '';'')"
proof -
  define z where "z = strip q"
  have z: "strip z = z" "z \<noteq> []" "prefix ''SELECT'' (upper z)"
    using sel by (auto simp: z_def)
  have sub: "sublist z q" unfolding z_def by (rule sublist_strip)
  have fourth: "\<not> sublist ''SELECT '' (upper z)
              \<or> (retained z \<and> (\<forall>m\<in>set explanation_markers. \<not> sublist m (lower z)))"
    using res
  proof
    assume "\<not> sublist ''SELECT '' (upper q)"
    then show ?thesis using sublist_upper [OF sub] sublist_order.order_trans by blast
  next
    assume a: "retained q \<and> (\<forall>m\<in>set explanation_markers. \<not> sublist m (lower q))"
    then have "retained z" unfolding z_def by (simp add: retained_strip)
    moreover have "\<forall>m\<in>set explanation_markers. \<not> sublist m (lower z)"
      using a sublist_lower [OF sub] sublist_order.order_trans by blast
    ultimately show ?thesis by blast
  qed
  have bare: "\<not> sublist ''SELECT '' (upper z)" if "upper z = ''SELECT''"
    unfolding that by code_simp
  have bare_semi: "\<not> sublist ''SELECT '' (upper (z @ '';''))" if "upper z = ''SELECT''"
    unfolding upper_append that upper_semicolon by code_simp
  show ?thesis
  proof (cases "suffix '';'' z")
    case True
    have "\<not> sublist ''SELECT '' (upper z)
          \<or> (prefix ''SELECT '' (upper z) \<and> (\<forall>m\<in>set explanation_markers. \<not> sublist m (lower z)))"
      using fourth bare unfolding retained_def by blast
    with True z show ?thesis unfolding z_def [symmetric] by (simp add: well_formed_def)
  next
    case False
    have s1: "strip (z @ '';'') = z @ '';''"
      using strip_semicolon [of q] z(2) by (simp add: z_def)
    have s3: "prefix ''SELECT'' (upper (z @ '';''))"
      unfolding upper_append using z(3) by (rule prefix_prefix)
    have s4: "\<not> sublist ''SELECT '' (upper (z @ '';''))
          \<or> (prefix ''SELECT '' (upper (z @ '';''))
             \<and> (\<forall>m\<in>set explanation_markers. \<not> sublist m (lower (z @ '';''))))"
      using fourth
    proof
      assume n: "\<not> sublist ''SELECT '' (upper z)"
      have "\<not> sublist ''SELECT '' (upper z @ '';'')"
      proof
        assume "sublist ''SELECT '' (upper z @ '';'')"
        then have "sublist ''SELECT '' (upper z)" by (rule sublist_snoc_other) simp_all
        with n show False by blast
      qed
      then show ?thesis by (simp add: upper_semicolon)
    next
      assume a: "retained z \<and> (\<forall>m\<in>set explanation_markers. \<not> sublist m (lower z))"
      show ?thesis
      proof (cases "upper z = ''SELECT''")
        case True
        then show ?thesis using bare_semi by blast
      next
        case False
        with a have "prefix ''SELECT '' (upper z)" by (simp add: retained_def)
        then have "prefix ''SELECT '' (upper (z @ '';''))"
          unfolding upper_append by (rule prefix_prefix)
        moreover have "\<not> sublist m (lower (z @ '';''))" if "m \<in> set explanation_markers" for m
        proof
          assume "sublist m (lower (z @ '';''))"
          then have "sublist m (lower z @ '';'')" by (simp add: upper_semicolon)
          then have "sublist m (lower z)"
            using semicolon_not_in_marker [OF that] markers_nonempty that
            by (intro sublist_snoc_other [of m "lower z" "CHR '';''"]) auto
          with a that show False by blast
        qed
        ultimately show ?thesis by blast
      qed
    qed
    from False s1 s3 s4 show ?thesis unfolding z_def [symmetric] by (simp add: well_formed_def)
  qed
qed

lemma normalize_again:
  assumes "normalize x = Inr y"
  shows "normalize y = Inr (strip y)"
proof -
  define q where "q = extract_select (remove_quotes (remove_markdown (strip x)))"
  have "accept (ensure_semicolon q) = Inr y"
    using assms by (simp add: normalize_def cleanup_def q_def)
  then have sel: "prefix ''SELECT'' (upper (strip q))"
    and y: "y = (if suffix '';'' (strip q) then q else strip q @ '';'')"
    by (auto simp: accept_ensure_semicolon split: if_splits)
  have "strip q \<noteq> []" using sel by auto
  then have "strip y = (if suffix '';'' (strip q) then strip q else strip q @ '';'')"
    unfolding y by (simp add: strip_semicolon)
  moreover have "well_formed (if suffix '';'' (strip q) then strip q else strip q @ '';'')"
    using sel extract_select_result [of "remove_quotes (remove_markdown (strip x))"]
    unfolding q_def [symmetric] by (rule finish_well_formed)
  ultimately have "well_formed (strip y)" by simp
  then have "normalize (strip y) = Inr (strip y)" by (rule well_formed_normalize)
  then show ?thesis by (simp add: normalize_strip)
qed

lemma markers_no_overlap_all:
  "\<forall>m\<in>set explanation_markers.
     \<forall>m'\<in>set (takeWhile (\<lambda>x. x \<noteq> m) explanation_markers). \<not> overlaps m' m"
  by code_simp

lemma markers_last: "\<forall>m\<in>set explanation_markers. m \<noteq> [] \<and> \<not> is_space (last m)"
  by code_simp

lemma overlap_occurrences:
  assumes "prefix m (drop i s)" "prefix m' (drop j s)" "i < j" "j < i + length m"
  shows "overlaps m' m"
proof -
  define d where "d = j - i"
  have d: "1 \<le> d" "d < length m" "j = d + i" using assms(3,4) by (simp_all add: d_def)
  from assms(1) obtain t where t: "drop i s = m @ t" by (auto simp: prefix_def)
  have "drop j s = drop d (drop i s)" by (simp add: d)
  also have "\<dots> = drop d m @ t" unfolding t using d(2) by simp
  finally have "prefix m' (drop d m @ t)" using assms(2) by simp
  then have "prefix m' (drop d m) \<or> prefix (drop d m) m'"
    by (auto simp: prefix_append)
  moreover have "d \<in> set [1..<length m]" using d by simp
  ultimately show ?thesis unfolding overlaps_def by blast
qed

lemma find_str_occurrence:
  "prefix sub (drop i s) \<Longrightarrow> i \<le> length s \<Longrightarrow> \<exists>i'\<le>i. find_str sub s = Some i'"
proof (induction s arbitrary: i)
  case Nil
  then show ?case by simp
next
  case (Cons c cs)
  show ?case
  proof (cases "prefix sub (c # cs)")
    case True
    then show ?thesis by simp
  next
    case False
    with Cons.prems obtain k where k: "i = Suc k" by (cases i) auto
    with Cons.prems have "prefix sub (drop k cs)" "k \<le> length cs" by simp_all
    from Cons.IH [OF this] obtain i' where "i' \<le> k" "find_str sub cs = Some i'" by blast
    with False k show ?thesis by simp
  qed
qed

lemma length_strip_le: "length (strip s) \<le> length s"
  using sublist_strip [of s] by (rule sublist_length_le)

lemma retained_rstrip: 
  assumes "retained u"
  shows "strip u = rstrip u"
proof -
  from assms have "prefix ''SELECT'' (upper u)" by (auto simp: retained_def prefix_def)
  then have "\<not> is_space (hd u)"
    using upper_hd_not_space [of "CHR ''S''" "''ELECT''" u] by (simp add: is_space_def)
  then have "lstrip u = u" by (simp add: lstrip_eq)
  then show ?thesis by (simp add: strip_def)
qed

lemma cut_marker_prefix:
  assumes "retained r" "m \<in> set explanation_markers"
  shows "prefix (cut_marker r m) r"
proof (cases "find_str m (lower r)")
  case None
  then show ?thesis by (simp add: cut_marker_def)
next
  case (Some j)
  have "retained (take j r)" using assms Some by (rule retained_take_marker)
  then have "strip (take j r) = rstrip (take j r)" by (rule retained_rstrip)
  moreover have "prefix (rstrip (take j r)) (take j r)" by (rule prefix_rstrip)
  moreover have "prefix (take j r) r" by (rule take_is_prefix)
  ultimately show ?thesis using Some by (simp add: cut_marker_def)
qed

lemma cut_marker_form: "cut_marker r m = r \<or> strip (cut_marker r m) = cut_marker r m"
  by (cases "find_str m (lower r)") (simp_all add: cut_marker_def)

lemma foldl_cut_marker_prefix:
  "retained r \<Longrightarrow> set ms \<subseteq> set explanation_markers \<Longrightarrow> prefix (foldl cut_marker r ms) r"
proof (induction ms arbitrary: r)
  case Nil
  then show ?case by simp
next
  case (Cons m ms)
  have "retained (cut_marker r m)" using Cons.prems by (simp add: retained_cut_marker)
  then have "prefix (foldl cut_marker (cut_marker r m) ms) (cut_marker r m)"
    using Cons.prems by (intro Cons.IH) simp_all
  moreover have "prefix (cut_marker r m) r" using Cons.prems by (simp add: cut_marker_prefix)
  ultimately show ?case by simp
qed

lemma foldl_cut_marker_form:
  "foldl cut_marker r ms = r \<or> strip (foldl cut_marker r ms) = foldl cut_marker r ms"
proof (induction ms arbitrary: r)
  case Nil
  then show ?case by simp
next
  case (Cons m ms)
  from Cons.IH [of "cut_marker r m"] cut_marker_form [of r m] show ?case by auto
qed

lemma foldl_cut_marker_length: "length (foldl cut_marker r ms) \<le> length r"
  using foldl_cut_marker_sublist [of r ms] by (rule sublist_length_le)

lemma cut_marker_target:
  assumes "prefix m (drop i (lower r))" "i \<le> length r"
  shows "length (cut_marker r m) \<le> i"
proof -
  from find_str_occurrence [OF assms(1)] assms(2)
  obtain i' where i': "i' \<le> i" "find_str m (lower r) = Some i'" by auto
  have "length (strip (take i' r)) \<le> length (take i' r)" by (rule length_strip_le)
  also have "\<dots> \<le> i'" by simp
  finally show ?thesis using i' by (simp add: cut_marker_def)
qed

lemma cut_marker_keeps_occurrence:
  assumes ret: "retained r" and m': "m' \<in> set explanation_markers"
    and m: "m \<in> set explanation_markers" and no: "\<not> overlaps m' m"
    and occ: "prefix m (drop i (lower r))" and i: "i \<le> length r"
  shows "length (cut_marker r m') \<le> i
         \<or> (prefix m (drop i (lower (cut_marker r m'))) \<and> i \<le> length (cut_marker r m'))"
proof (cases "find_str m' (lower r)")
  case None
  with occ i show ?thesis by (simp add: cut_marker_def)
next
  case (Some j)
  have cut: "cut_marker r m' = strip (take j r)" using Some by (simp add: cut_marker_def)
  show ?thesis
  proof (cases "j \<le> i")
    case True
    have "length (strip (take j r)) \<le> length (take j r)" by (rule length_strip_le)
    also have "\<dots> \<le> j" by simp
    finally show ?thesis using True cut by simp
  next
    case False
    define n where "n = i + length m"
    have jr: "j \<le> length r" using Some by (simp add: find_str_Some_iff)
    have "\<not> (i < j \<and> j < i + length m)"
      using overlap_occurrences [OF occ find_str_SomeD [OF Some]] no by blast
    with False have nj: "n \<le> j" by (simp add: n_def)
    have mne: "m \<noteq> []" "\<not> is_space (last m)" using markers_last m by blast+
    define a where "a = take n r"
    from occ obtain t where t: "drop i (lower r) = m @ t" by (auto simp: prefix_def)
    have "lower a = take (i + length m) (lower r)" by (simp add: a_def n_def lower_take)
    also have "\<dots> = take i (lower r) @ take (length m) (drop i (lower r))" by (rule take_add)
    also have "\<dots> = take i (lower r) @ m" unfolding t by simp
    finally have la: "lower a = take i (lower r) @ m" .
    then have ane: "a \<noteq> []" using mne(1) by auto
    have "last (lower a) = last m" unfolding la using mne(1) by simp
    then have "lower_char (last a) = last m" using ane by (simp add: lower_def last_map)
    then have "is_space (last a) = is_space (last m)" by (metis is_space_lower_char)
    with mne(2) have sp: "\<not> is_space (last a)" by simp
    define b where "b = take (j - n) (drop n r)"
    have "take j r = take (n + (j - n)) r" using nj by simp
    also have "\<dots> = a @ b" unfolding a_def b_def by (rule take_add)
    finally have tj: "take j r = butlast a @ last a # b" using ane by simp
    have "prefix (butlast a @ [last a]) (rstrip (butlast a @ last a # b))"
      using sp by (rule rstrip_keeps)
    then have "prefix a (rstrip (take j r))" unfolding tj using ane by simp
    moreover have "strip (take j r) = rstrip (take j r)"
      using retained_take_marker [OF ret m' Some] by (rule retained_rstrip)
    ultimately obtain c where c: "cut_marker r m' = a @ c" unfolding cut by (auto simp: prefix_def)
    have li: "length (take i (lower r)) = i" using i by simp
    have "drop i (lower (cut_marker r m')) = drop i ((take i (lower r) @ m) @ lower c)"
      unfolding c by (simp add: la)
    also have "\<dots> = m @ lower c" using li by simp
    finally have "prefix m (drop i (lower (cut_marker r m')))" by simp
    moreover have "i \<le> length (cut_marker r m')"
      unfolding c using arg_cong [OF la, of length] li by simp
    ultimately show ?thesis by blast
  qed
qed

lemma foldl_cuts_before:
  assumes "retained r" "set ms \<subseteq> set explanation_markers" "m \<in> set explanation_markers"
    "\<forall>m'\<in>set (takeWhile (\<lambda>x. x \<noteq> m) ms). \<not> overlaps m' m"
    "length r \<le> i \<or> (prefix m (drop i (lower r)) \<and> i \<le> length r \<and> m \<in> set ms)"
  shows "length (foldl cut_marker r ms) \<le> i"
  using assms
proof (induction ms arbitrary: r)
  case Nil
  then show ?case by simp
next
  case (Cons m' ms)
  show ?case
  proof (cases "length r \<le> i")
    case True
    with foldl_cut_marker_length [of r "m' # ms"] show ?thesis by simp
  next
    case False
    with Cons.prems(5) have occ: "prefix m (drop i (lower r))" "i \<le> length r"
      and mem: "m \<in> set (m' # ms)" by simp_all
    show ?thesis
    proof (cases "m' = m")
      case True
      have "length (cut_marker r m) \<le> i" using occ by (rule cut_marker_target)
      with foldl_cut_marker_length [of "cut_marker r m" ms] True show ?thesis by simp
    next
      case False
      with mem have mem': "m \<in> set ms" by simp
      from False Cons.prems(4) have no: "\<not> overlaps m' m"
        and rest: "\<forall>m'\<in>set (takeWhile (\<lambda>x. x \<noteq> m) ms). \<not> overlaps m' m"
        by simp_all
      have m': "m' \<in> set explanation_markers" using Cons.prems(2) by simp
      have "length (cut_marker r m') \<le> i
            \<or> (prefix m (drop i (lower (cut_marker r m'))) \<and> i \<le> length (cut_marker r m'))"
        using Cons.prems(1) m' Cons.prems(3) no occ by (rule cut_marker_keeps_occurrence)
      then have "length (cut_marker r m') \<le> i
            \<or> (prefix m (drop i (lower (cut_marker r m'))) \<and> i \<le> length (cut_marker r m')
                \<and> m \<in> set ms)"
        using mem' by blast
      moreover have "retained (cut_marker r m')"
        using Cons.prems(1) m' by (rule retained_cut_marker)
      moreover have "set ms \<subseteq> set explanation_markers" using Cons.prems(2) by simp
      ultimately have "length (foldl cut_marker (cut_marker r m') ms) \<le> i"
        using Cons.prems(3) rest by (intro Cons.IH)
      then show ?thesis by simp
    qed
  qed
qed

lemma rstrip_decomp: "\<exists>w. v = rstrip v @ w \<and> (\<forall>c\<in>set w. is_space c)"
proof -
  have "rev (takeWhile is_space (rev v) @ dropWhile is_space (rev v)) = rev (rev v)"
    by (simp only: takeWhile_dropWhile_id)
  then have "rev (dropWhile is_space (rev v)) @ rev (takeWhile is_space (rev v)) = v"
    by (simp only: rev_append rev_rev_ident)
  then have "v = rstrip v @ rev (takeWhile is_space (rev v))"
    by (simp only: rstrip_def)
  moreover have "\<forall>c\<in>set (rev (takeWhile is_space (rev v))). is_space c"
    by (auto dest: set_takeWhileD)
  ultimately show ?thesis by blast
qed

lemma rstrip_spaces: "\<forall>c\<in>set w. is_space c \<Longrightarrow> rstrip (r @ w) = rstrip r"
proof -
  assume "\<forall>c\<in>set w. is_space c"
  then have "\<And>x. x \<in> set (rev w) \<Longrightarrow> is_space x" by simp
  then have "dropWhile is_space (rev w @ rev r) = dropWhile is_space (rev r)"
    by (rule dropWhile_append2)
  then show ?thesis by (simp add: rstrip_def)
qed

lemma rstrip_rstrip [simp]: "rstrip (rstrip v) = rstrip v"
  using rstrip_last [of v] by (auto simp: rstrip_eq)

lemma rstrip_between:
  assumes "prefix u v" "length (rstrip v) \<le> length u"
  shows "rstrip u = rstrip v"
proof -
  from rstrip_decomp [of v] obtain w where w: "v = rstrip v @ w" "\<forall>c\<in>set w. is_space c"
    by blast
  from assms(1) obtain t where t: "v = u @ t" by (auto simp: prefix_def)
  have "prefix (rstrip v) u"
    using assms(2) w(1) t by (metis prefix_length_prefix prefixI)
  then obtain w' where w': "u = rstrip v @ w'" by (auto simp: prefix_def)
  with t w(1) have "w = w' @ t" by (metis append_assoc same_append_eq)
  with w(2) have "\<forall>c\<in>set w'. is_space c" by simp
  then have "rstrip (rstrip v @ w') = rstrip (rstrip v)" by (rule rstrip_spaces)
  then show ?thesis using w' by simp
qed

lemma occurrence_in_prefix:
  assumes "prefix r q" "find_str m (lower r) = Some j"
  shows "prefix m (drop j (lower q))" "j \<le> length r"
proof -
  from assms(2) show j: "j \<le> length r" by (simp add: find_str_Some_iff)
  from assms(1) obtain t where "q = r @ t" by (auto simp: prefix_def)
  then have "drop j (lower q) = drop j (lower r) @ lower t" using j by simp
  moreover have "prefix m (drop j (lower r))" using assms(2) by (rule find_str_SomeD)
  ultimately show "prefix m (drop j (lower q))" by (simp add: prefix_prefix)
qed

lemma foldl_cuts_at:
  assumes "retained q" "set ms \<subseteq> set explanation_markers"
    "\<forall>m'\<in>set explanation_markers. \<forall>i'<i. \<not> prefix m' (drop i' (lower q))"
    "prefix r q" "retained r" "r = q \<or> (\<exists>p\<ge>i. r = rstrip (take p q))"
  shows "foldl cut_marker r ms = q \<or> (\<exists>p\<ge>i. foldl cut_marker r ms = rstrip (take p q))"
  using assms(2,4,5,6)
proof (induction ms arbitrary: r)
  case Nil
  then show ?case by simp
next
  case (Cons m' ms)
  have m': "m' \<in> set explanation_markers" using Cons.prems(1) by simp
  have step: "cut_marker r m' = q \<or> (\<exists>p\<ge>i. cut_marker r m' = rstrip (take p q))"
  proof (cases "find_str m' (lower r)")
    case None
    with Cons.prems(4) show ?thesis by (simp add: cut_marker_def)
  next
    case (Some j)
    from occurrence_in_prefix [OF Cons.prems(2) Some]
    have occ: "prefix m' (drop j (lower q))" and j: "j \<le> length r" .
    with assms(3) m' have "\<not> j < i" by blast
    then have ij: "i \<le> j" by simp
    have "take j r = take j q" using Cons.prems(2) j by (auto simp: prefix_def)
    moreover have "strip (take j r) = rstrip (take j r)"
      using retained_take_marker [OF Cons.prems(3) m' Some] by (rule retained_rstrip)
    ultimately have "cut_marker r m' = rstrip (take j q)" using Some by (simp add: cut_marker_def)
    with ij show ?thesis by blast
  qed
  have "prefix (cut_marker r m') q"
    using cut_marker_prefix [OF Cons.prems(3) m'] Cons.prems(2) by (rule prefix_order.order_trans)
  moreover have "retained (cut_marker r m')" using Cons.prems(3) m' by (rule retained_cut_marker)
  moreover have "set ms \<subseteq> set explanation_markers" using Cons.prems(1) by simp
  ultimately have "foldl cut_marker (cut_marker r m') ms = q
                   \<or> (\<exists>p\<ge>i. foldl cut_marker (cut_marker r m') ms = rstrip (take p q))"
    using step by (intro Cons.IH)
  then show ?case by simp
qed

lemma markers_no_overlap:
  "m \<in> set explanation_markers \<Longrightarrow>
   \<forall>m'\<in>set (takeWhile (\<lambda>x. x \<noteq> m) explanation_markers). \<not> overlaps m' m"
  using markers_no_overlap_all by blast

lemma accept_retained:
  assumes "retained r" "strip r = r"
  shows "accept (ensure_semicolon r) = Inr (with_semicolon r)"
proof -
  from assms(1) have "prefix ''SELECT'' (upper r)" by (auto simp: retained_def prefix_def)
  then show ?thesis by (simp add: accept_ensure_semicolon assms(2) with_semicolon_def)
qed

lemma extract_select_retained:
  assumes "find_str ''select '' (lower cleaned) = Some k"
  shows "retained (drop k cleaned)"
    and "extract_select cleaned = foldl cut_marker (drop k cleaned) explanation_markers"
proof -
  have "prefix ''select '' (lower (drop k cleaned))"
    using find_str_SomeD [OF assms] by (simp add: lower_drop)
  then have sel: "prefix ''SELECT '' (upper (drop k cleaned))" by (rule select_prefix_upper)
  then show "retained (drop k cleaned)" by (simp add: retained_def)
  have "sublist ''SELECT '' (drop k (upper cleaned))" using sel by (simp add: upper_drop)
  moreover have "sublist (drop k (upper cleaned)) (upper cleaned)" by simp
  ultimately have "sublist ''SELECT '' (upper cleaned)" by (rule sublist_order.order_trans)
  then have "find_str ''SELECT '' (upper cleaned) \<noteq> None" by (simp add: find_str_None_iff)
  then obtain i0 where "find_str ''SELECT '' (upper cleaned) = Some i0" by blast
  then show "extract_select cleaned = foldl cut_marker (drop k cleaned) explanation_markers"
    using assms by (simp add: extract_select_def)
qed

section \<open>The statement validator\<close>

text \<open>
  Claim C1. Whatever the SQL text, the schema and the tokenizer, \<open>validate\<close> accepts only
  when the tokenizer returns exactly one statement and its type is \<open>SELECT\<close>. An input
  that parses to no statement, one whose first statement is not a \<open>SELECT\<close> (such as
  \<open>DROP TABLE users;\<close>) and one that parses to more than one statement (such as
  \<open>SELECT * FROM users; SELECT * FROM orders;\<close>) are all rejected.
\<close>

theorem validate_accepts_only_single_select:
  "(validate order parse schema sql = Inr (True, msg)
      \<longrightarrow> (\<exists>s. parse sql = [s] \<and> get_type s = ''SELECT''))
   \<and> (parse sql = [] \<or> get_type (hd (parse sql)) \<noteq> ''SELECT'' \<or> length (parse sql) > 1
      \<longrightarrow> validate order parse schema sql =
            Inr (False, if strip sql = [] then ''SQL query is empty.''
                        else ''Invalid SQL: Only SELECT queries are permitted.''))"
  by (cases "parse sql")
    (auto simp: validate_def is_readonly_query_def Let_def
          split: if_splits sum.splits list.splits)

theorem validate_accepts_only_single_select_witness:
  "validate (\<lambda>xs. xs) (\<lambda>s. [drop_table_users]) users_schema ''DROP TABLE users;''
     = Inr (False, ''Invalid SQL: Only SELECT queries are permitted.'')
   \<and> validate (\<lambda>xs. xs) (\<lambda>s. [select_from ''users'', select_from ''orders'']) users_schema
        ''SELECT * FROM users; SELECT * FROM orders;''
     = Inr (False, ''Invalid SQL: Only SELECT queries are permitted.'')
   \<and> validate (\<lambda>xs. xs) (\<lambda>s. []) users_schema ''SELECT 1''
     = Inr (False, ''Invalid SQL: Only SELECT queries are permitted.'')
   \<and> validate (\<lambda>xs. xs) (\<lambda>s. [select_one]) users_schema ''SELECT 1;''
     = Inr (True, ''SQL Validated'')
   \<and> (\<exists>s. (\<lambda>s. [select_one]) ''SELECT 1;'' = [s] \<and> get_type s = ''SELECT'')"
proof -
  have a: "validate (\<lambda>xs. xs) (\<lambda>s. [select_one]) users_schema ''SELECT 1;''
             = Inr (True, ''SQL Validated'')"
    by (simp add: validate_def validate_schema_references_def is_readonly_query_def strip_defs
        select_one_def token_defs users_schema_def table_keywords_def)
  have b: "strip ''DROP TABLE users;'' \<noteq> []"
    "strip ''SELECT * FROM users; SELECT * FROM orders;'' \<noteq> []"
    "strip ''SELECT 1'' \<noteq> []"
    by (simp_all add: strip_defs)
  have c: "get_type (hd [drop_table_users]) \<noteq> ''SELECT''"
    by (simp add: drop_table_users_def)
  show ?thesis
    using a b c
      validate_accepts_only_single_select [of "\<lambda>xs. xs" "\<lambda>s. [drop_table_users]"
        users_schema "''DROP TABLE users;''"]
      validate_accepts_only_single_select [of "\<lambda>xs. xs"
        "\<lambda>s. [select_from ''users'', select_from ''orders'']" users_schema
        "''SELECT * FROM users; SELECT * FROM orders;''"]
      validate_accepts_only_single_select [of "\<lambda>xs. xs" "\<lambda>s. []" users_schema "''SELECT 1''"]
      validate_accepts_only_single_select [of "\<lambda>xs. xs" "\<lambda>s. [select_one]" users_schema
        "''SELECT 1;''" "''SQL Validated''"]
    by simp
qed



text \<open>
  Claim C3. With an empty schema every SQL text that passes the emptiness check and the
  read-only check is accepted, whatever tables it names: the reference check returns at
  once with success, without looking at the statement.
\<close>

theorem empty_schema_skips_reference_check:
  assumes "strip sql \<noteq> []" "is_readonly_query parse sql"
  shows "validate_schema_references order parse Map.empty sql
           = Inr (True, ''Schema not available for validation.'')
         \<and> validate order parse Map.empty sql = Inr (True, ''SQL Validated'')"
  using assms by (simp add: validate_def validate_schema_references_def)

theorem empty_schema_skips_reference_check_witness:
  "strip ''SELECT * FROM ghost_table;'' \<noteq> []
   \<and> is_readonly_query (\<lambda>s. [select_from ''ghost_table'']) ''SELECT * FROM ghost_table;''
   \<and> validate (\<lambda>xs. xs) (\<lambda>s. [select_from ''ghost_table'']) Map.empty
        ''SELECT * FROM ghost_table;'' = Inr (True, ''SQL Validated'')"
proof -
  have a: "strip ''SELECT * FROM ghost_table;'' \<noteq> []"
    by (simp add: strip_defs)
  have b: "is_readonly_query (\<lambda>s. [select_from ''ghost_table'']) ''SELECT * FROM ghost_table;''"
    by (simp add: is_readonly_query_def select_from_def)
  from empty_schema_skips_reference_check [OF a b] a b show ?thesis by simp
qed



text \<open>
  Claim C9. A single \<open>SELECT\<close> statement without any \<open>FROM\<close> or join keyword among its
  tokens (such as \<open>SELECT 1;\<close>) yields no table reference and is accepted against every
  schema, empty or not.
\<close>

theorem no_from_no_references:
  assumes "enumerates order" "strip sql \<noteq> []" "parse sql = [stmt]" "get_type stmt = ''SELECT''"
    "\<forall>t\<in>set (tokens stmt). \<not> table_keyword t"
  shows "scan_tokens False [] (tokens stmt) = Inr []
         \<and> validate order parse schema sql = Inr (True, ''SQL Validated'')"
proof -
  have scan: "scan_tokens False [] (tokens stmt) = Inr []"
    using scan_skip [of "tokens stmt" "[]" "[]"] assms(5) by simp
  have nil: "order [] = []"
    using assms(1) unfolding enumerates_def by (metis set_empty)
  have "validate_schema_references order parse schema sql = Inr (True, ''SQL schema references seem valid.'')
     \<or> validate_schema_references order parse schema sql = Inr (True, ''Schema not available for validation.'')"
    using assms(3) scan nil by (simp add: validate_schema_references_def)
  then show ?thesis
    using scan assms(2,3,4) validate_single_select [of sql parse stmt order schema] by auto
qed

theorem no_from_no_references_witness:
  "scan_tokens False [] (tokens select_one) = Inr []
   \<and> validate (\<lambda>xs. xs) (\<lambda>s. [select_one]) users_schema ''SELECT 1;'' = Inr (True, ''SQL Validated'')
   \<and> validate rev (\<lambda>s. [select_one]) Map.empty ''SELECT 1;'' = Inr (True, ''SQL Validated'')"
proof -
  have a: "enumerates (\<lambda>xs. xs)" "enumerates rev" by (simp_all add: enumerates_def)
  have b: "strip ''SELECT 1;'' \<noteq> []" by (simp add: strip_defs)
  have c: "get_type select_one = ''SELECT''" by (simp add: select_one_def)
  have d: "\<forall>t\<in>set (tokens select_one). \<not> table_keyword t"
    by (simp add: select_one_def token_defs table_keyword_def table_keywords_def)
  show ?thesis
    using no_from_no_references [OF a(1) b _ c d, of "\<lambda>s. [select_one]" users_schema]
      no_from_no_references [OF a(2) b _ c d, of "\<lambda>s. [select_one]" Map.empty]
    by simp
qed

section \<open>The completion normalizer\<close>

text \<open>
  Claim C6. The completion that wraps \<open>SELECT * FROM users\<close> in an SQL-tagged fence,
  with a line break after the opener and before the closer, is normalised to exactly
  \<open>SELECT * FROM users;\<close>: opener and closer are removed, and the missing semicolon is
  appended.
\<close>

theorem normalize_fenced_select:
  "normalize (fence_sql @ ''\<newline>SELECT * FROM users\<newline>'' @ fence) = Inr ''SELECT * FROM users;''
   \<and> remove_markdown (strip (fence_sql @ ''\<newline>SELECT * FROM users\<newline>'' @ fence))
       = ''SELECT * FROM users''
   \<and> ensure_semicolon ''SELECT * FROM users'' = ''SELECT * FROM users;''"
  by code_simp




text \<open>
  Claim C5, as the code has it. The two quote tests run one after the other, single
  quotes first. A text wrapped in double quotes loses exactly that one layer, whatever is
  inside. A text wrapped in single quotes loses them and then, if what remains is wrapped
  in double quotes, those as well. A text wrapped in neither is left alone.
\<close>

theorem remove_quotes_layers:
  "remove_quotes ([CHR 0x22] @ m @ [CHR 0x22]) = m
   \<and> remove_quotes ([CHR 0x27] @ m @ [CHR 0x27])
       = (if prefix [CHR 0x22] m \<and> suffix [CHR 0x22] m then slice_1_m1 m else m)
   \<and> (\<not> (prefix [CHR 0x27] s \<and> suffix [CHR 0x27] s) \<and> \<not> (prefix [CHR 0x22] s \<and> suffix [CHR 0x22] s)
        \<longrightarrow> remove_quotes s = s)"
  using remove_quotes_double [of m] remove_quotes_single [of m] remove_quotes_unwrapped [of s]
  by blast

theorem remove_quotes_layers_witness:
  "remove_quotes ([CHR 0x22] @ ([CHR 0x27] @ ''SELECT 1'' @ [CHR 0x27]) @ [CHR 0x22])
     = [CHR 0x27] @ ''SELECT 1'' @ [CHR 0x27]
   \<and> remove_quotes ([CHR 0x27] @ ([CHR 0x22] @ ''SELECT 1'' @ [CHR 0x22]) @ [CHR 0x27]) = ''SELECT 1''
   \<and> remove_quotes ([CHR 0x27] @ ''SELECT 1'' @ [CHR 0x27]) = ''SELECT 1''
   \<and> remove_quotes ''SELECT 1'' = ''SELECT 1''"
proof -
  have a: "prefix [CHR 0x22] ([CHR 0x22] @ ''SELECT 1'' @ [CHR 0x22])
           \<and> suffix [CHR 0x22] ([CHR 0x22] @ ''SELECT 1'' @ [CHR 0x22])"
    "\<not> (prefix [CHR 0x22] ''SELECT 1'' \<and> suffix [CHR 0x22] ''SELECT 1'')"
    "\<not> (prefix [CHR 0x27] ''SELECT 1'' \<and> suffix [CHR 0x27] ''SELECT 1'')"
    by code_simp+
  have b: "slice_1_m1 ([CHR 0x22] @ ''SELECT 1'' @ [CHR 0x22]) = ''SELECT 1''"
    by code_simp
  show ?thesis
    using remove_quotes_layers [of "[CHR 0x27] @ ''SELECT 1'' @ [CHR 0x27]" "''SELECT 1''"]
      remove_quotes_layers [of "[CHR 0x22] @ ''SELECT 1'' @ [CHR 0x22]" "''SELECT 1''"]
      remove_quotes_layers [of "''SELECT 1''" "''SELECT 1''"] a b
    by simp
qed

text \<open>The claim as stated fails: single quotes around double quotes around the query
  are both removed.\<close>

theorem two_quote_layers_stripped:
  "remove_quotes ([CHR 0x27, CHR 0x22] @ ''SELECT 1'' @ [CHR 0x22, CHR 0x27]) = ''SELECT 1''
   \<and> remove_quotes ([CHR 0x27, CHR 0x22] @ ''SELECT 1'' @ [CHR 0x22, CHR 0x27])
        \<noteq> [CHR 0x22] @ ''SELECT 1'' @ [CHR 0x22]
   \<and> normalize ([CHR 0x27, CHR 0x22] @ ''SELECT 1'' @ [CHR 0x22, CHR 0x27]) = Inr ''SELECT 1;''"
  by code_simp






end
